theory Spec2Isabelle
  imports Complex_Main
begin

section \<open>Inverse-kinematic arm: the two core functions of main.py\<close>

text \<open>
  The program's numbers are modelled as exact reals: this theory is about the two
  functions over exact real arithmetic. The rounding of double-precision operations,
  overflow, NaN and signed zeros are not modelled, so nothing proved here says what the
  program does where a rounded result differs from the exact one. Every operation of
  the source that can raise over exact reals is a branch of the model: \<open>math.sqrt\<close> of a negative number
  (ValueError), division by zero (ZeroDivisionError) and tuple indexing past the end
  (IndexError). A function that can return \<open>None\<close> has the result type
  \<open>error + 'a option\<close>: \<open>Inl\<close> is a raised exception, \<open>Inr None\<close> the absence
  signal and \<open>Inr (Some v)\<close> a proper result.
\<close>

datatype error = ValueError | ZeroDivisionError | IndexError

definition and_then :: "error + 'a \<Rightarrow> ('a \<Rightarrow> error + 'b) \<Rightarrow> error + 'b" where
  "and_then m f = (case m of Inl e \<Rightarrow> Inl e | Inr v \<Rightarrow> f v)"

definition py_sqrt :: "real \<Rightarrow> error + real" where
  "py_sqrt v = (if v < 0 then Inl ValueError else Inr (sqrt v))"

definition py_div :: "real \<Rightarrow> real \<Rightarrow> error + real" where
  "py_div a b = (if b = 0 then Inl ZeroDivisionError else Inr (a / b))"

definition index :: "real list \<Rightarrow> nat \<Rightarrow> error + real" where
  "index xs i = (if i < length xs then Inr (xs ! i) else Inl IndexError)"

text \<open>
  \<open>math.atan2 y x\<close> on reals: the angle in \<open>(-pi, pi]\<close> of the vector \<open>(x, y)\<close>, and
  \<open>0\<close> for the zero vector (the library function does not raise there).
\<close>

definition atan2 :: "real \<Rightarrow> real \<Rightarrow> real" where
  "atan2 y x =
     (if 0 < x then arctan (y / x)
      else if x < 0 then (if 0 \<le> y then arctan (y / x) + pi else arctan (y / x) - pi)
      else if 0 < y then pi / 2
      else if y < 0 then - (pi / 2)
      else 0)"

subsection \<open>circle_intersections (main.py, lines 8 to 36)\<close>

definition circle_intersections ::
  "real \<Rightarrow> real \<Rightarrow> real \<Rightarrow> real \<Rightarrow> real \<Rightarrow> real \<Rightarrow> error + (real \<times> real \<times> real \<times> real) option" where
  "circle_intersections x0 y0 r0 x1 y1 r1 =
     and_then (py_sqrt ((x1 - x0)\<^sup>2 + (y1 - y0)\<^sup>2)) (\<lambda>d.
       if d > r0 + r1 then Inr None
       else if d < \<bar>r0 - r1\<bar> then Inr None
       else if d = 0 \<and> r0 = r1 then Inr None
       else
         and_then (py_div (r0\<^sup>2 - r1\<^sup>2 + d\<^sup>2) (2 * d)) (\<lambda>a.
         and_then (py_sqrt (r0\<^sup>2 - a\<^sup>2)) (\<lambda>h.
         and_then (py_div (a * (x1 - x0)) d) (\<lambda>ax.
         and_then (py_div (a * (y1 - y0)) d) (\<lambda>ay.
         let x2 = x0 + ax; y2 = y0 + ay in
         and_then (py_div (h * (y1 - y0)) d) (\<lambda>hy.
         and_then (py_div (h * (x1 - x0)) d) (\<lambda>hx.
         let x3 = x2 + hy; y3 = y2 - hx in
         and_then (py_div (h * (y1 - y0)) d) (\<lambda>hy'.
         and_then (py_div (h * (x1 - x0)) d) (\<lambda>hx'.
         let x4 = x2 - hy'; y4 = y2 + hx' in
         Inr (Some (x3, y3, x4, y4)))))))))))"

subsection \<open>get_arm_angles (main.py, lines 39 to 100)\<close>

text \<open>
  The \<open>while\<close> loop of lines 69 to 72. Its state is \<open>arm_length_1\<close>, \<open>arm_length_3\<close>
  and \<open>second_arm_index\<close>. The loop condition reads \<open>arm_lengths[second_arm_index]\<close>
  and the body reads \<open>arm_lengths[second_arm_index + 1]\<close>; either raises IndexError
  past the end of the tuple, which also ends the loop.
\<close>

function grow_first_section ::
  "real \<Rightarrow> real list \<Rightarrow> real \<Rightarrow> real \<Rightarrow> nat \<Rightarrow> error + (real \<times> real \<times> nat)" where
  "grow_first_section d arm_lengths arm_length_1 arm_length_3 second_arm_index =
     (if length arm_lengths \<le> second_arm_index then Inl IndexError
      else if arm_length_3 > d + arm_length_1 + arm_lengths ! second_arm_index then
        (if length arm_lengths \<le> second_arm_index + 1 then Inl IndexError
         else grow_first_section d arm_lengths
                (arm_length_1 + arm_lengths ! second_arm_index)
                (arm_length_3 - arm_lengths ! (second_arm_index + 1))
                (second_arm_index + 1))
      else Inr (arm_length_1, arm_length_3, second_arm_index))"
  by pat_completeness auto
termination
  by (relation "measure (\<lambda>(d, ls, l1, l3, i). length ls - i)") auto

declare grow_first_section.simps [simp del]

text \<open>
  Lines 66 to 77: the lengths of the three straight sections and the first joint
  \<open>(x1, y1)\<close>. The result is \<open>(x1, y1, arm_length_2, arm_length_3, second_arm_index)\<close>,
  the arguments of the circle intersection and the index of the bending arm.
\<close>

definition arm_sections ::
  "real \<Rightarrow> real \<Rightarrow> real \<Rightarrow> real list \<Rightarrow> error + (real \<times> real \<times> real \<times> real \<times> nat)" where
  "arm_sections x y d arm_lengths =
     and_then (grow_first_section d arm_lengths 0 (sum_list (drop 1 arm_lengths)) 0)
       (\<lambda>(arm_length_1, arm_length_3, second_arm_index).
     and_then (index arm_lengths second_arm_index) (\<lambda>arm_length_2.
     and_then (py_div (- arm_length_1) d) (\<lambda>scale_factor.
     let x1 = x * scale_factor; y1 = y * scale_factor in
     Inr (x1, y1, arm_length_2, arm_length_3, second_arm_index))))"

definition get_arm_angles :: "real \<Rightarrow> real \<Rightarrow> real list \<Rightarrow> error + real list option" where
  "get_arm_angles x y arm_lengths =
     and_then (py_sqrt (x\<^sup>2 + y\<^sup>2)) (\<lambda>d.
       if d > sum_list arm_lengths then Inr None
       else if d = 0 then Inr None
       else
         let x3 = x; y3 = y;
             angle_1 = atan2 (- y) (- x) in
         and_then (arm_sections x y d arm_lengths)
           (\<lambda>(x1, y1, arm_length_2, arm_length_3, second_arm_index).
         and_then (circle_intersections x1 y1 arm_length_2 x3 y3 arm_length_3)
           (\<lambda>intersection.
         case intersection of
           None \<Rightarrow> Inr None
         | Some (x2, y2, x4, y4) \<Rightarrow>
             let angle_2 = atan2 (y2 - y1) (x2 - x1);
                 angle_3 = atan2 (y3 - y2) (x3 - x2) in
             Inr (Some (replicate second_arm_index angle_1
                        @ [angle_2]
                        @ replicate (nat (int (length arm_lengths) - int second_arm_index - 1))
                            angle_3)))))"

subsection \<open>Walking the chain\<close>

text \<open>
  The consumer of the angles (the loop of \<open>on_mouse_motion\<close>, lines 138 to 145) walks
  the chain from the base: each (angle, length) pair advances the current point by
  \<open>length * (cos angle, sin angle)\<close>. The walk is taken here over exact reals and from
  an arbitrary start point; the source rounds each step to whole pixels for drawing.
\<close>

fun walk :: "real \<times> real \<Rightarrow> (real \<times> real) list \<Rightarrow> real \<times> real" where
  "walk p [] = p"
| "walk (arm_x, arm_y) ((angle, len) # rest) =
     walk (arm_x + len * cos angle, arm_y + len * sin angle) rest"

definition arm_end :: "real list \<Rightarrow> real list \<Rightarrow> real \<times> real" where
  "arm_end angles arm_lengths = walk (0, 0) (zip angles arm_lengths)"

subsection \<open>Circles as point sets\<close>




section \<open>Auxiliary facts\<close>

subsection \<open>The circle intersection\<close>

lemma py_sqrt_sum_squares: "py_sqrt (a\<^sup>2 + b\<^sup>2) = Inr (sqrt (a\<^sup>2 + b\<^sup>2))"
  by (simp add: py_sqrt_def not_less)

lemma chord_offset_le:
  fixes d r0 r1 :: real
  assumes d: "0 < d" and le: "d \<le> r0 + r1" and ge: "\<bar>r0 - r1\<bar> \<le> d"
  shows "((r0\<^sup>2 - r1\<^sup>2 + d\<^sup>2) / (2 * d))\<^sup>2 \<le> r0\<^sup>2"
proof -
  have r0: "0 \<le> r0" and r1: "0 \<le> r1"
    using le ge by linarith+
  have "\<bar>d - r0\<bar> \<le> \<bar>r1\<bar>"
    using le ge r1 by linarith
  then have "(d - r0)\<^sup>2 \<le> r1\<^sup>2"
    by (simp only: abs_le_square_iff)
  then have up: "r0\<^sup>2 - r1\<^sup>2 + d\<^sup>2 \<le> 2 * d * r0"
    by (simp add: power2_eq_square algebra_simps)
  have "\<bar>r1\<bar> \<le> \<bar>d + r0\<bar>"
    using ge r0 r1 d by linarith
  then have "r1\<^sup>2 \<le> (d + r0)\<^sup>2"
    by (simp only: abs_le_square_iff)
  then have lo: "- (2 * d * r0) \<le> r0\<^sup>2 - r1\<^sup>2 + d\<^sup>2"
    by (simp add: power2_eq_square algebra_simps)
  have "\<bar>(r0\<^sup>2 - r1\<^sup>2 + d\<^sup>2) / (2 * d)\<bar> \<le> \<bar>r0\<bar>"
    using up lo d r0 by (simp add: abs_le_iff field_simps)
  then show ?thesis
    by (simp only: abs_le_square_iff)
qed

lemma circle_intersections_rejected:
  assumes "d = sqrt ((x1 - x0)\<^sup>2 + (y1 - y0)\<^sup>2)"
    and "d > r0 + r1 \<or> d < \<bar>r0 - r1\<bar> \<or> (d = 0 \<and> r0 = r1)"
  shows "circle_intersections x0 y0 r0 x1 y1 r1 = Inr None"
  using assms
  by (auto simp add: circle_intersections_def py_sqrt_sum_squares and_then_def)

lemma circle_intersections_accepted:
  fixes x0 y0 r0 x1 y1 r1 :: real
  assumes d: "d = sqrt ((x1 - x0)\<^sup>2 + (y1 - y0)\<^sup>2)"
    and a: "a = (r0\<^sup>2 - r1\<^sup>2 + d\<^sup>2) / (2 * d)"
    and h: "h = sqrt (r0\<^sup>2 - a\<^sup>2)"
    and guards: "\<not> (d > r0 + r1 \<or> d < \<bar>r0 - r1\<bar> \<or> (d = 0 \<and> r0 = r1))"
  shows "circle_intersections x0 y0 r0 x1 y1 r1 =
           Inr (Some (x0 + a * (x1 - x0) / d + h * (y1 - y0) / d,
                      y0 + a * (y1 - y0) / d - h * (x1 - x0) / d,
                      x0 + a * (x1 - x0) / d - h * (y1 - y0) / d,
                      y0 + a * (y1 - y0) / d + h * (x1 - x0) / d))"
    and "0 < d" and "a\<^sup>2 \<le> r0\<^sup>2"
proof -
  have "0 \<le> d"
    by (simp add: d)
  with guards show pos: "0 < d"
    by linarith
  from pos guards show le: "a\<^sup>2 \<le> r0\<^sup>2"
    unfolding a by (intro chord_offset_le) simp_all
  have root: "py_sqrt (r0\<^sup>2 - a\<^sup>2) = Inr h"
    using le by (simp add: py_sqrt_def h)
  have quot: "py_div w d = Inr (w / d)" "py_div w (2 * d) = Inr (w / (2 * d))" for w
    using pos by (simp_all add: py_div_def)
  show "circle_intersections x0 y0 r0 x1 y1 r1 =
           Inr (Some (x0 + a * (x1 - x0) / d + h * (y1 - y0) / d,
                      y0 + a * (y1 - y0) / d - h * (x1 - x0) / d,
                      x0 + a * (x1 - x0) / d - h * (y1 - y0) / d,
                      y0 + a * (y1 - y0) / d + h * (x1 - x0) / d))"
    unfolding circle_intersections_def py_sqrt_sum_squares and_then_def
    using guards root quot
    by (simp add: d [symmetric] a [symmetric] Let_def)
qed

lemma chord_point_first:
  fixes a h u v d r0 :: real
  assumes d2: "d\<^sup>2 = u\<^sup>2 + v\<^sup>2" and pos: "0 < d" and h2: "h\<^sup>2 = r0\<^sup>2 - a\<^sup>2"
  shows "(a * u / d + h * v / d)\<^sup>2 + (a * v / d - h * u / d)\<^sup>2 = r0\<^sup>2"
proof -
  have "(a * u / d + h * v / d)\<^sup>2 + (a * v / d - h * u / d)\<^sup>2
          = ((a * u + h * v)\<^sup>2 + (a * v - h * u)\<^sup>2) / d\<^sup>2"
    by (simp add: power_divide add_divide_distrib [symmetric] diff_divide_distrib [symmetric])
  also have "(a * u + h * v)\<^sup>2 + (a * v - h * u)\<^sup>2 = (a\<^sup>2 + h\<^sup>2) * (u\<^sup>2 + v\<^sup>2)"
    by (simp add: power2_eq_square algebra_simps)
  also have "\<dots> / d\<^sup>2 = a\<^sup>2 + h\<^sup>2"
    using pos by (simp add: d2 [symmetric])
  finally show ?thesis
    by (simp add: h2)
qed

lemma chord_point_second:
  fixes a h u v d r0 r1 :: real
  assumes d2: "d\<^sup>2 = u\<^sup>2 + v\<^sup>2" and pos: "0 < d" and h2: "h\<^sup>2 = r0\<^sup>2 - a\<^sup>2"
    and a: "2 * d * a = r0\<^sup>2 - r1\<^sup>2 + d\<^sup>2"
  shows "(a * u / d + h * v / d - u)\<^sup>2 + (a * v / d - h * u / d - v)\<^sup>2 = r1\<^sup>2"
proof -
  have shift: "a * u / d + h * v / d - u = (a - d) * u / d + h * v / d"
    "a * v / d - h * u / d - v = (a - d) * v / d - h * u / d"
    using pos by (simp_all add: field_simps)
  have "h\<^sup>2 = r1\<^sup>2 - (a - d)\<^sup>2"
    using a h2 by (simp add: power2_eq_square algebra_simps)
  then show ?thesis
    unfolding shift by (rule chord_point_first [OF d2 pos])
qed

lemma circle_intersections_on_circles:
  assumes "circle_intersections x0 y0 r0 x1 y1 r1 = Inr (Some (x3, y3, x4, y4))"
  shows "(x3 - x0)\<^sup>2 + (y3 - y0)\<^sup>2 = r0\<^sup>2" and "(x3 - x1)\<^sup>2 + (y3 - y1)\<^sup>2 = r1\<^sup>2"
    and "(x4 - x0)\<^sup>2 + (y4 - y0)\<^sup>2 = r0\<^sup>2" and "(x4 - x1)\<^sup>2 + (y4 - y1)\<^sup>2 = r1\<^sup>2"
    and "0 \<le> r0" and "0 \<le> r1"
proof -
  define d where "d = sqrt ((x1 - x0)\<^sup>2 + (y1 - y0)\<^sup>2)"
  define u v where "u = x1 - x0" and "v = y1 - y0"
  have d2: "d\<^sup>2 = u\<^sup>2 + v\<^sup>2"
    by (simp add: d_def u_def v_def)
  have d2': "d\<^sup>2 = (- u)\<^sup>2 + (- v)\<^sup>2"
    by (simp add: d2)
  have guards: "\<not> (d > r0 + r1 \<or> d < \<bar>r0 - r1\<bar> \<or> (d = 0 \<and> r0 = r1))"
  proof
    assume "d > r0 + r1 \<or> d < \<bar>r0 - r1\<bar> \<or> (d = 0 \<and> r0 = r1)"
    with d_def have "circle_intersections x0 y0 r0 x1 y1 r1 = Inr None"
      by (rule circle_intersections_rejected)
    with assms show False
      by simp
  qed
  define a where "a = (r0\<^sup>2 - r1\<^sup>2 + d\<^sup>2) / (2 * d)"
  define h where "h = sqrt (r0\<^sup>2 - a\<^sup>2)"
  note acc = circle_intersections_accepted [OF d_def a_def h_def guards]
  note pos = acc(2) and le = acc(3) and a = a_def and h = h_def
  from acc(1) assms
  have p3: "x3 = x0 + a * u / d + h * v / d" "y3 = y0 + a * v / d - h * u / d"
    and p4: "x4 = x0 + a * u / d - h * v / d" "y4 = y0 + a * v / d + h * u / d"
    by (simp_all add: u_def v_def)
  have h2: "h\<^sup>2 = r0\<^sup>2 - a\<^sup>2"
    using le by (simp add: h)
  have a2: "2 * d * a = r0\<^sup>2 - r1\<^sup>2 + d\<^sup>2"
    using pos by (simp add: a)
  show "0 \<le> r0" and "0 \<le> r1"
    using guards by linarith+
  have "x3 - x0 = a * u / d + h * v / d" and "y3 - y0 = a * v / d - h * u / d"
    by (simp_all add: p3)
  then show "(x3 - x0)\<^sup>2 + (y3 - y0)\<^sup>2 = r0\<^sup>2"
    using chord_point_first [OF d2 pos h2] by simp
  have "x3 - x1 = a * u / d + h * v / d - u" and "y3 - y1 = a * v / d - h * u / d - v"
    by (simp_all add: p3 u_def v_def)
  then show "(x3 - x1)\<^sup>2 + (y3 - y1)\<^sup>2 = r1\<^sup>2"
    using chord_point_second [OF d2 pos h2 a2] by simp
  have h2': "(- h)\<^sup>2 = r0\<^sup>2 - a\<^sup>2"
    by (simp add: h2)
  have "x4 - x0 = a * u / d + (- h) * v / d" and "y4 - y0 = a * v / d - (- h) * u / d"
    by (simp_all add: p4)
  then show "(x4 - x0)\<^sup>2 + (y4 - y0)\<^sup>2 = r0\<^sup>2"
    using chord_point_first [OF d2 pos h2'] by (simp only:)
  have "x4 - x1 = a * u / d + (- h) * v / d - u"
    and "y4 - y1 = a * v / d - (- h) * u / d - v"
    by (simp_all add: p4 u_def v_def)
  then show "(x4 - x1)\<^sup>2 + (y4 - y1)\<^sup>2 = r1\<^sup>2"
    using chord_point_second [OF d2 pos h2' a2] by (simp only:)
qed

subsection \<open>Angles\<close>

lemma sqrt_one_plus_slope:
  fixes dx dy :: real
  assumes "dx \<noteq> 0"
  shows "sqrt (1 + (dy / dx)\<^sup>2) = sqrt (dx\<^sup>2 + dy\<^sup>2) / \<bar>dx\<bar>"
proof -
  have "1 + (dy / dx)\<^sup>2 = (dx\<^sup>2 + dy\<^sup>2) / dx\<^sup>2"
    using assms by (simp add: power_divide add_divide_distrib)
  then show ?thesis
    by (simp add: real_sqrt_divide)
qed

lemma atan2_polar:
  fixes dx dy r :: real
  assumes r2: "r\<^sup>2 = dx\<^sup>2 + dy\<^sup>2" and r0: "0 \<le> r"
  shows "r * cos (atan2 dy dx) = dx" and "r * sin (atan2 dy dx) = dy"
proof -
  have r: "sqrt (dx\<^sup>2 + dy\<^sup>2) = r"
    using r2 r0 by (simp add: real_sqrt_unique)
  consider (right) "0 < dx" | (left) "dx < 0" | (up) "dx = 0" "0 < dy"
    | (down) "dx = 0" "dy < 0" | (zero) "dx = 0" "dy = 0"
    by linarith
  then have "r * cos (atan2 dy dx) = dx \<and> r * sin (atan2 dy dx) = dy"
  proof cases
    case right
    then have "0 < r"
      using r by (metis real_sqrt_gt_zero pos2 sum_power2_gt_zero_iff less_irrefl)
    with right show ?thesis
      by (simp add: atan2_def cos_arctan sin_arctan sqrt_one_plus_slope r)
  next
    case left
    then have "0 < r"
      using r by (metis real_sqrt_gt_zero pos2 sum_power2_gt_zero_iff less_irrefl)
    with left show ?thesis
      by (simp add: atan2_def cos_arctan sin_arctan sqrt_one_plus_slope r)
  next
    case up
    with r show ?thesis
      by (simp add: atan2_def)
  next
    case down
    with r show ?thesis
      by (simp add: atan2_def)
  next
    case zero
    with r show ?thesis
      by (simp add: atan2_def)
  qed
  then show "r * cos (atan2 dy dx) = dx" and "r * sin (atan2 dy dx) = dy"
    by simp_all
qed

subsection \<open>The loop that grows the first section\<close>

lemma sum_list_take_Suc:
  fixes ls :: "real list"
  assumes "i < length ls"
  shows "sum_list (take (Suc i) ls) = sum_list (take i ls) + ls ! i"
  using assms by (simp add: take_Suc_conv_app_nth)

lemma sum_list_drop_Suc:
  fixes ls :: "real list"
  assumes "i < length ls"
  shows "sum_list (drop i ls) = ls ! i + sum_list (drop (Suc i) ls)"
  using assms by (simp add: Cons_nth_drop_Suc [symmetric])

lemma grow_first_section_result:
  assumes "grow_first_section d ls l1 l3 i = Inr (l1', l3', i')"
    and "l1 = sum_list (take i ls)" and "l3 = sum_list (drop (Suc i) ls)"
  shows "l1' = sum_list (take i' ls) \<and> l3' = sum_list (drop (Suc i') ls)
           \<and> i' < length ls \<and> i \<le> i' \<and> \<not> l3' > d + l1' + ls ! i'"
  using assms
proof (induction d ls l1 l3 i rule: grow_first_section.induct)
  case (1 d ls l1 l3 i)
  from "1.prems"(1) have i: "i < length ls"
    by (subst (asm) grow_first_section.simps) (simp split: if_splits)
  show ?case
  proof (cases "l3 > d + l1 + ls ! i")
    case True
    with "1.prems"(1) i have next_i: "Suc i < length ls"
      and rec: "grow_first_section d ls (l1 + ls ! i) (l3 - ls ! (i + 1)) (i + 1)
                  = Inr (l1', l3', i')"
      by (subst (asm) grow_first_section.simps, simp split: if_splits)+
    have "l1 + ls ! i = sum_list (take (i + 1) ls)"
      using i "1.prems"(2) by (simp add: sum_list_take_Suc)
    moreover have "l3 - ls ! (i + 1) = sum_list (drop (Suc (i + 1)) ls)"
      using next_i "1.prems"(3) sum_list_drop_Suc [of "Suc i" ls] by simp
    ultimately have "l1' = sum_list (take i' ls) \<and> l3' = sum_list (drop (Suc i') ls)
           \<and> i' < length ls \<and> i + 1 \<le> i' \<and> \<not> l3' > d + l1' + ls ! i'"
      using "1.IH" i True next_i rec by simp
    then show ?thesis
      by simp
  next
    case False
    with "1.prems" i show ?thesis
      by (subst (asm) grow_first_section.simps) auto
  qed
qed

lemma grow_first_section_total:
  assumes "i < length ls" and "l1 = sum_list (take i ls)"
    and "l3 = sum_list (drop (Suc i) ls)" and "0 \<le> d + sum_list ls"
  shows "\<exists>r. grow_first_section d ls l1 l3 i = Inr r"
  using assms
proof (induction d ls l1 l3 i rule: grow_first_section.induct)
  case (1 d ls l1 l3 i)
  show ?case
  proof (cases "l3 > d + l1 + ls ! i")
    case True
    have next_i: "Suc i < length ls"
    proof (rule ccontr)
      assume "\<not> Suc i < length ls"
      with "1.prems"(1) have "Suc i = length ls"
        by simp
      with "1.prems" have "l3 = 0" and "l1 + ls ! i = sum_list ls"
        using sum_list_take_Suc [of i ls] by simp_all
      with True "1.prems"(4) show False
        by simp
    qed
    have "l1 + ls ! i = sum_list (take (i + 1) ls)"
      using "1.prems" by (simp add: sum_list_take_Suc)
    moreover have "l3 - ls ! (i + 1) = sum_list (drop (Suc (i + 1)) ls)"
      using next_i "1.prems"(3) sum_list_drop_Suc [of "Suc i" ls] by simp
    ultimately have "\<exists>r. grow_first_section d ls (l1 + ls ! i) (l3 - ls ! (i + 1)) (i + 1) = Inr r"
      using "1.IH" "1.prems" True next_i by simp
    then show ?thesis
      using True next_i "1.prems"(1)
      by (subst grow_first_section.simps) simp
  next
    case False
    with "1.prems"(1) show ?thesis
      by (subst grow_first_section.simps) simp
  qed
qed

subsection \<open>Totality of the two functions\<close>

lemma circle_intersections_total:
  "circle_intersections x0 y0 r0 x1 y1 r1 = Inr None
   \<or> (\<exists>x3 y3 x4 y4. circle_intersections x0 y0 r0 x1 y1 r1 = Inr (Some (x3, y3, x4, y4)))"
proof (cases "sqrt ((x1 - x0)\<^sup>2 + (y1 - y0)\<^sup>2) > r0 + r1
    \<or> sqrt ((x1 - x0)\<^sup>2 + (y1 - y0)\<^sup>2) < \<bar>r0 - r1\<bar>
    \<or> (sqrt ((x1 - x0)\<^sup>2 + (y1 - y0)\<^sup>2) = 0 \<and> r0 = r1)")
  case True
  with refl have "circle_intersections x0 y0 r0 x1 y1 r1 = Inr None"
    by (rule circle_intersections_rejected)
  then show ?thesis ..
next
  case False
  from circle_intersections_accepted(1) [OF refl refl refl False] show ?thesis
    by blast
qed

lemma arm_sections_reachable:
  assumes pos: "0 < d" and reach: "d \<le> sum_list ls"
  shows "\<exists>i. i < length ls
    \<and> arm_sections x y d ls =
           Inr (x * (- sum_list (take i ls) / d), y * (- sum_list (take i ls) / d),
                ls ! i, sum_list (drop (Suc i) ls), i)
    \<and> \<not> sum_list (drop (Suc i) ls) > d + sum_list (take i ls) + ls ! i"
proof -
  from pos reach have "ls \<noteq> []"
    by auto
  then have len: "0 < length ls"
    by simp
  have start: "(0::real) = sum_list (take 0 ls)" "sum_list (drop 1 ls) = sum_list (drop (Suc 0) ls)"
    by simp_all
  from pos reach have "0 \<le> d + sum_list ls"
    by simp
  with len start obtain r where "grow_first_section d ls 0 (sum_list (drop 1 ls)) 0 = Inr r"
    using grow_first_section_total [of 0 ls 0 "sum_list (drop 1 ls)" d] by auto
  then obtain l1 l3 i where run: "grow_first_section d ls 0 (sum_list (drop 1 ls)) 0 = Inr (l1, l3, i)"
    by (cases r) auto
  from grow_first_section_result [OF run start]
  have l1: "l1 = sum_list (take i ls)" and l3: "l3 = sum_list (drop (Suc i) ls)"
    and i: "i < length ls" and stop: "\<not> l3 > d + l1 + ls ! i"
    by simp_all
  have "arm_sections x y d ls =
           Inr (x * (- sum_list (take i ls) / d), y * (- sum_list (take i ls) / d),
                ls ! i, sum_list (drop (Suc i) ls), i)"
    using pos i run by (simp add: arm_sections_def and_then_def index_def py_div_def l1 l3)
  with i stop show ?thesis
    by (intro exI [of _ i]) (simp add: l1 l3)
qed

lemma get_arm_angles_unreachable:
  assumes "sqrt (x\<^sup>2 + y\<^sup>2) > sum_list ls \<or> sqrt (x\<^sup>2 + y\<^sup>2) = 0"
  shows "get_arm_angles x y ls = Inr None"
  using assms by (auto simp add: get_arm_angles_def py_sqrt_sum_squares and_then_def)

lemma get_arm_angles_empty: "get_arm_angles x y [] = Inr None"
  by (rule get_arm_angles_unreachable) (simp add: less_le)

lemma get_arm_angles_reachable:
  assumes d: "d = sqrt (x\<^sup>2 + y\<^sup>2)" and pos: "d \<noteq> 0" and reach: "\<not> d > sum_list ls"
    and sections: "arm_sections x y d ls = Inr (x1, y1, l2, l3, i)"
  shows "get_arm_angles x y ls =
           (case circle_intersections x1 y1 l2 x y l3 of
              Inl e \<Rightarrow> Inl e
            | Inr None \<Rightarrow> Inr None
            | Inr (Some (x2, y2, x4, y4)) \<Rightarrow>
                Inr (Some (replicate i (atan2 (- y) (- x))
                           @ [atan2 (y2 - y1) (x2 - x1)]
                           @ replicate (nat (int (length ls) - int i - 1))
                               (atan2 (y - y2) (x - x2)))))"
  using pos reach sections
  by (simp add: get_arm_angles_def py_sqrt_sum_squares and_then_def d [symmetric] Let_def
      split: sum.splits option.splits prod.splits)

subsection \<open>The end of the chain\<close>

lemma walk_append: "walk p (steps @ more) = walk (walk p steps) more"
  by (induction p steps rule: walk.induct) simp_all

lemma walk_replicate:
  "length ls = k \<Longrightarrow>
   walk (px, py) (zip (replicate k angle) ls)
     = (px + sum_list ls * cos angle, py + sum_list ls * sin angle)"
proof (induction ls arbitrary: k px py)
  case Nil
  then show ?case by simp
next
  case (Cons l ls)
  then obtain k' where k: "k = Suc k'" and "length ls = k'"
    by (cases k) auto
  with Cons.IH [of k'] show ?case
    by (simp add: algebra_simps)
qed

lemma walk_three_sections:
  assumes i: "i < length ls" and m: "m = length ls - i - 1"
  shows "walk (0, 0) (zip (replicate i a1 @ [a2] @ replicate m a3) ls)
           = (sum_list (take i ls) * cos a1 + ls ! i * cos a2
                + sum_list (drop (Suc i) ls) * cos a3,
              sum_list (take i ls) * sin a1 + ls ! i * sin a2
                + sum_list (drop (Suc i) ls) * sin a3)"
proof -
  have split: "ls = take i ls @ [ls ! i] @ drop (Suc i) ls"
    using i by (simp add: Cons_nth_drop_Suc)
  have lens: "length (take i ls) = i" "length (drop (Suc i) ls) = m"
    using i m by simp_all
  have "zip (replicate i a1 @ [a2] @ replicate m a3) ls
          = zip (replicate i a1 @ [a2] @ replicate m a3)
                (take i ls @ [ls ! i] @ drop (Suc i) ls)"
    using split by simp
  also have "\<dots> = zip (replicate i a1) (take i ls) @ [(a2, ls ! i)]
                     @ zip (replicate m a3) (drop (Suc i) ls)"
    using lens by simp
  finally show ?thesis
    using lens by (simp add: walk_append walk_replicate)
qed

lemma get_arm_angles_result:
  assumes "get_arm_angles x y ls = Inr (Some angles)"
  shows "length angles = length ls" and "arm_end angles ls = (x, y)"
proof -
  define d where "d = sqrt (x\<^sup>2 + y\<^sup>2)"
  have reach: "\<not> d > sum_list ls" and nz: "d \<noteq> 0"
    using assms get_arm_angles_unreachable [of ls x y] by (auto simp add: d_def)
  have pos: "0 < d"
    using nz by (simp add: d_def less_le)
  from reach have "d \<le> sum_list ls"
    by simp
  with pos obtain i where i: "i < length ls"
    and sections: "arm_sections x y d ls =
           Inr (x * (- sum_list (take i ls) / d), y * (- sum_list (take i ls) / d),
                ls ! i, sum_list (drop (Suc i) ls), i)"
    using arm_sections_reachable [of d ls x y] by blast
  define l1 where "l1 = sum_list (take i ls)"
  define l3 where "l3 = sum_list (drop (Suc i) ls)"
  define x1 y1 where "x1 = x * (- l1 / d)" and "y1 = y * (- l1 / d)"
  define a1 where "a1 = atan2 (- y) (- x)"
  define m where "m = nat (int (length ls) - int i - 1)"
  have m: "m = length ls - i - 1"
    by (simp add: m_def)
  note unfolded = get_arm_angles_reachable [OF d_def nz reach sections]
  from unfolded assms obtain x2 y2 x4 y4
    where crossing: "circle_intersections x1 y1 (ls ! i) x y l3 = Inr (Some (x2, y2, x4, y4))"
      and angles: "angles = replicate i a1 @ [atan2 (y2 - y1) (x2 - x1)]
                      @ replicate m (atan2 (y - y2) (x - x2))"
    by (auto simp add: x1_def y1_def l1_def l3_def a1_def m_def
        split: sum.splits option.splits)
  show "length angles = length ls"
    using i by (simp add: angles m)
  have "d\<^sup>2 = (- x)\<^sup>2 + (- y)\<^sup>2"
    by (simp add: d_def)
  with pos have first: "d * cos a1 = - x" "d * sin a1 = - y"
    unfolding a1_def by (simp_all add: atan2_polar)
  have lead: "l1 * cos a1 = x1" "l1 * sin a1 = y1"
  proof -
    have "l1 * cos a1 = (l1 / d) * (d * cos a1)" "l1 * sin a1 = (l1 / d) * (d * sin a1)"
      using pos by simp_all
    then show "l1 * cos a1 = x1" "l1 * sin a1 = y1"
      by (simp_all add: first x1_def y1_def)
  qed
  note on = circle_intersections_on_circles [OF crossing]
  have bend: "ls ! i * cos (atan2 (y2 - y1) (x2 - x1)) = x2 - x1"
    "ls ! i * sin (atan2 (y2 - y1) (x2 - x1)) = y2 - y1"
    using on(1) on(5) by (simp_all add: atan2_polar)
  have "l3\<^sup>2 = (x - x2)\<^sup>2 + (y - y2)\<^sup>2"
    using on(2) by (simp add: power2_commute)
  then have trail: "l3 * cos (atan2 (y - y2) (x - x2)) = x - x2"
    "l3 * sin (atan2 (y - y2) (x - x2)) = y - y2"
    using on(6) by (simp_all add: atan2_polar)
  show "arm_end angles ls = (x, y)"
    unfolding arm_end_def angles walk_three_sections [OF i m]
    using lead bend trail by (simp add: l1_def [symmetric] l3_def [symmetric])
qed

text \<open>
  Over exact real arithmetic the solver raises on no input, and it returns an angle
  sequence for a fully extended chain. Both facts rest on the radicand of line 27 being
  non-negative once the guards of lines 17 to 24 have passed (\<open>chord_offset_le\<close>),
  which holds for exact values only: the double-precision program computes \<open>a\<close> and
  the radicand with rounding, and the guards do not bound the rounded radicand.
\<close>

lemma get_arm_angles_total:
  "get_arm_angles x y ls = Inr None
   \<or> (\<exists>angles. get_arm_angles x y ls = Inr (Some angles) \<and> length angles = length ls)"
proof (cases "get_arm_angles x y ls")
  case (Inl e)
  define d where "d = sqrt (x\<^sup>2 + y\<^sup>2)"
  have reach: "\<not> d > sum_list ls" and nz: "d \<noteq> 0"
    using Inl get_arm_angles_unreachable [of ls x y] by (auto simp add: d_def)
  moreover have "0 \<le> d"
    by (simp add: d_def)
  ultimately have "0 < d" and "d \<le> sum_list ls"
    by simp_all
  then obtain x1 y1 l2 l3 i where "arm_sections x y d ls = Inr (x1, y1, l2, l3, i)"
    using arm_sections_reachable [of d ls x y] by blast
  from get_arm_angles_reachable [OF d_def nz reach this] Inl
  have "\<exists>e. circle_intersections x1 y1 l2 x y l3 = Inl e"
    by (simp split: sum.splits option.splits prod.splits)
  with circle_intersections_total [of x1 y1 l2 x y l3] show ?thesis
    by auto
next
  case (Inr r)
  then show ?thesis
    by (cases r) (simp_all add: get_arm_angles_result(1))
qed

lemma get_arm_angles_fully_extended:
  assumes ne: "ls \<noteq> []" and positive: "\<forall>l\<in>set ls. 0 < l"
    and dist: "sqrt (x\<^sup>2 + y\<^sup>2) = sum_list ls"
  shows "\<exists>angles. get_arm_angles x y ls = Inr (Some angles)"
proof -
  from ne obtain l rest where ls: "ls = l # rest"
    by (cases ls) auto
  define d where "d = sqrt (x\<^sup>2 + y\<^sup>2)"
  define l3 where "l3 = sum_list rest"
  have l: "0 < l" and l3: "0 \<le> l3"
    using positive by (simp_all add: ls l3_def sum_list_nonneg less_imp_le)
  have d: "d = l + l3"
    using dist by (simp add: d_def ls l3_def)
  have nz: "d \<noteq> 0" and reach: "\<not> d > sum_list ls"
    using l l3 d by (simp_all add: ls l3_def)
  have "grow_first_section d ls 0 (sum_list (drop 1 ls)) 0 = Inr (0, l3, 0)"
    using l l3 d by (subst grow_first_section.simps) (simp add: ls l3_def)
  then have sections: "arm_sections x y d ls = Inr (0, 0, l, l3, 0)"
    using nz by (simp add: arm_sections_def and_then_def index_def py_div_def ls)
  have centres: "d = sqrt ((x - 0)\<^sup>2 + (y - 0)\<^sup>2)"
    by (simp add: d_def)
  have "\<not> (d > l + l3 \<or> d < \<bar>l - l3\<bar> \<or> (d = 0 \<and> l = l3))"
    using l l3 d by simp
  from circle_intersections_accepted(1) [OF centres refl refl this]
  obtain x2 y2 x4 y4 where "circle_intersections 0 0 l x y l3 = Inr (Some (x2, y2, x4, y4))"
    by blast
  with get_arm_angles_reachable [OF d_def nz reach sections] show ?thesis
    by simp
qed

subsection \<open>The common points of two circles\<close>








subsection \<open>Evaluations at concrete inputs\<close>


lemma sqrt_25: "sqrt 25 = 5"
  by (rule real_sqrt_unique) simp_all

lemma sqrt_144_25: "sqrt (144 / 25) = 12 / 5"
  by (rule real_sqrt_unique) (simp_all add: power2_eq_square)

lemma circle_intersections_bent:
  "circle_intersections 0 0 3 5 0 4 = Inr (Some (9 / 5, - (12 / 5), 9 / 5, 12 / 5))"
  using circle_intersections_accepted(1) [of 5 5 0 0 0 "9 / 5" 3 4 "12 / 5"]
  by (simp add: sqrt_25 power2_eq_square sqrt_144_25)


lemma arm_sections_bent:
  "arm_sections 5 0 5 [3, 4] = Inr (0, 0, 3, 4, 0)"
  by (simp add: arm_sections_def grow_first_section.simps and_then_def index_def py_div_def)

lemma get_arm_angles_bent:
  "get_arm_angles 5 0 [3, 4] = Inr (Some [atan2 (- (12 / 5)) (9 / 5), atan2 (12 / 5) (16 / 5)])"
  using get_arm_angles_reachable [of 5 5 0 "[3, 4]" 0 0 3 4 0]
  by (simp add: sqrt_25 arm_sections_bent circle_intersections_bent)

section \<open>Properties\<close>

text \<open>
  C1: whenever get_arm_angles returns an angle sequence for a non-empty sequence of
  positive segment lengths, walking the chain from the origin, each segment advancing
  by its length times \<open>(cos angle, sin angle)\<close>, ends exactly at the target
  \<open>(x, y)\<close>.
\<close>

theorem get_arm_angles_reaches_target:
  assumes "arm_lengths \<noteq> []" and "\<forall>l\<in>set arm_lengths. 0 < l"
    and "get_arm_angles x y arm_lengths = Inr (Some angles)"
  shows "arm_end angles arm_lengths = (x, y)"
  using assms(3) by (rule get_arm_angles_result(2))

theorem get_arm_angles_reaches_target_witness:
  "get_arm_angles 5 0 [3, 4] = Inr (Some [atan2 (- (12 / 5)) (9 / 5), atan2 (12 / 5) (16 / 5)])
   \<and> arm_end [atan2 (- (12 / 5)) (9 / 5), atan2 (12 / 5) (16 / 5)] [3, 4] = (5, 0)"
  using get_arm_angles_reaches_target
    [of "[3, 4]" 5 0 "[atan2 (- (12 / 5)) (9 / 5), atan2 (12 / 5) (16 / 5)]"]
  by (simp add: get_arm_angles_bent)




text \<open>
  C7: for a non-empty sequence of positive segment lengths and a target at distance
  \<open>d\<close> with \<open>0 < d\<close> and \<open>d\<close> at most the sum of the lengths, the loop of
  lines 69 to 72 ends without reading past the end of the sequence (the model returns
  IndexError for such a read), with second_arm_index below the length of the sequence,
  so that the read of \<open>arm_lengths[second_arm_index]\<close> on line 73 is in bounds too.
\<close>

theorem grow_first_section_in_bounds:
  assumes "arm_lengths \<noteq> []" and "\<forall>l\<in>set arm_lengths. 0 < l"
    and "d = sqrt (x\<^sup>2 + y\<^sup>2)" and "0 < d" and "d \<le> sum_list arm_lengths"
  shows "\<exists>arm_length_1 arm_length_3 second_arm_index.
           grow_first_section d arm_lengths 0 (sum_list (drop 1 arm_lengths)) 0
             = Inr (arm_length_1, arm_length_3, second_arm_index)
           \<and> second_arm_index < length arm_lengths
           \<and> index arm_lengths second_arm_index = Inr (arm_lengths ! second_arm_index)"
proof -
  have start: "(0::real) = sum_list (take 0 arm_lengths)"
    "sum_list (drop 1 arm_lengths) = sum_list (drop (Suc 0) arm_lengths)"
    by simp_all
  from assms(1) have "0 < length arm_lengths"
    by simp
  moreover from assms(4,5) have "0 \<le> d + sum_list arm_lengths"
    by simp
  ultimately obtain r
    where "grow_first_section d arm_lengths 0 (sum_list (drop 1 arm_lengths)) 0 = Inr r"
    using grow_first_section_total [OF _ start, of d] by blast
  then obtain l1 l3 i
    where run: "grow_first_section d arm_lengths 0 (sum_list (drop 1 arm_lengths)) 0
                  = Inr (l1, l3, i)"
    by (cases r) auto
  from grow_first_section_result [OF run start] have "i < length arm_lengths"
    by simp
  with run show ?thesis
    by (simp add: index_def)
qed

theorem grow_first_section_in_bounds_witness:
  "grow_first_section 1 [1, 1, 10] 0 (sum_list (drop 1 [1, 1, 10])) 0 = Inr (2, 0, 2)
   \<and> (\<exists>arm_length_1 arm_length_3 second_arm_index.
         grow_first_section 1 [1, 1, 10] 0 (sum_list (drop 1 [1, 1, 10])) 0
           = Inr (arm_length_1, arm_length_3, second_arm_index)
         \<and> second_arm_index < length [1, 1, 10 :: real]
         \<and> index [1, 1, 10] second_arm_index = Inr ([1, 1, 10] ! second_arm_index))"
proof -
  have "grow_first_section 1 [1, 1, 10] 0 (sum_list (drop 1 [1, 1, 10])) 0 = Inr (2, 0, 2)"
    by (simp add: grow_first_section.simps)
  moreover have "[1, 1, 10 :: real] \<noteq> []" and "\<forall>l\<in>set [1, 1, 10 :: real]. 0 < l"
    and "(1::real) = sqrt (1\<^sup>2 + 0\<^sup>2)" and "(0::real) < 1"
    and "(1::real) \<le> sum_list [1, 1, 10]"
    by simp_all
  ultimately show ?thesis
    using grow_first_section_in_bounds [of "[1, 1, 10]" 1 1 0] by blast
qed

text \<open>
  C8: when circle_intersections returns two points, the call with the two circles
  swapped returns the same two points, in swapped order.
\<close>

theorem circle_intersections_swap:
  assumes "circle_intersections x0 y0 r0 x1 y1 r1 = Inr (Some (x3, y3, x4, y4))"
  shows "circle_intersections x1 y1 r1 x0 y0 r0 = Inr (Some (x4, y4, x3, y3))"
proof -
  define d where "d = sqrt ((x1 - x0)\<^sup>2 + (y1 - y0)\<^sup>2)"
  define a where "a = (r0\<^sup>2 - r1\<^sup>2 + d\<^sup>2) / (2 * d)"
  define h where "h = sqrt (r0\<^sup>2 - a\<^sup>2)"
  define a' where "a' = (r1\<^sup>2 - r0\<^sup>2 + d\<^sup>2) / (2 * d)"
  define h' where "h' = sqrt (r1\<^sup>2 - a'\<^sup>2)"
  have guards: "\<not> (d > r0 + r1 \<or> d < \<bar>r0 - r1\<bar> \<or> (d = 0 \<and> r0 = r1))"
  proof
    assume "d > r0 + r1 \<or> d < \<bar>r0 - r1\<bar> \<or> (d = 0 \<and> r0 = r1)"
    with d_def have "circle_intersections x0 y0 r0 x1 y1 r1 = Inr None"
      by (rule circle_intersections_rejected)
    with assms show False
      by simp
  qed
  note acc = circle_intersections_accepted [OF d_def a_def h_def guards]
  have d': "d = sqrt ((x0 - x1)\<^sup>2 + (y0 - y1)\<^sup>2)"
    by (simp add: d_def power2_commute)
  from guards have guards': "\<not> (d > r1 + r0 \<or> d < \<bar>r1 - r0\<bar> \<or> (d = 0 \<and> r1 = r0))"
    by linarith
  note acc' = circle_intersections_accepted [OF d' a'_def h'_def guards']
  have pos: "0 < d"
    by (rule acc(2))
  have a': "a' = d - a"
    using pos by (simp add: a'_def a_def field_simps power2_eq_square)
  have "r1\<^sup>2 - a'\<^sup>2 = r0\<^sup>2 - a\<^sup>2"
  proof -
    have "2 * d * a = r0\<^sup>2 - r1\<^sup>2 + d\<^sup>2"
      using pos by (simp add: a_def)
    then show ?thesis
      by (simp add: a' power2_eq_square algebra_simps)
  qed
  then have h': "h' = h"
    by (simp add: h'_def h_def)
  from acc(1) assms
  have p: "x3 = x0 + a * (x1 - x0) / d + h * (y1 - y0) / d"
    "y3 = y0 + a * (y1 - y0) / d - h * (x1 - x0) / d"
    "x4 = x0 + a * (x1 - x0) / d - h * (y1 - y0) / d"
    "y4 = y0 + a * (y1 - y0) / d + h * (x1 - x0) / d"
    by simp_all
  have "x1 + a' * (x0 - x1) / d + h' * (y0 - y1) / d = x4"
    and "y1 + a' * (y0 - y1) / d - h' * (x0 - x1) / d = y4"
    and "x1 + a' * (x0 - x1) / d - h' * (y0 - y1) / d = x3"
    and "y1 + a' * (y0 - y1) / d + h' * (x0 - x1) / d = y3"
    using pos by (simp_all add: a' h' p field_simps)
  with acc'(1) show ?thesis
    by simp
qed

theorem circle_intersections_swap_witness:
  "circle_intersections 5 0 4 0 0 3 = Inr (Some (9 / 5, 12 / 5, 9 / 5, - (12 / 5)))"
  using circle_intersections_bent by (rule circle_intersections_swap)

text \<open>
  C9: when none of the three rejection guards of circle_intersections holds, then
  \<open>d > 0\<close> and \<open>r0\<^sup>2 \<ge> a\<^sup>2\<close> for \<open>a = (r0\<^sup>2 - r1\<^sup>2 + d\<^sup>2) / (2 d)\<close>,
  so no division and no square root of the success branch raises, and the function
  returns the two points of lines 28 to 34.
\<close>

theorem circle_intersections_success_defined:
  assumes "d = sqrt ((x1 - x0)\<^sup>2 + (y1 - y0)\<^sup>2)"
    and "a = (r0\<^sup>2 - r1\<^sup>2 + d\<^sup>2) / (2 * d)"
    and "h = sqrt (r0\<^sup>2 - a\<^sup>2)"
    and "d \<le> r0 + r1" and "d \<ge> \<bar>r0 - r1\<bar>" and "\<not> (d = 0 \<and> r0 = r1)"
  shows "0 < d \<and> r0\<^sup>2 \<ge> a\<^sup>2
         \<and> circle_intersections x0 y0 r0 x1 y1 r1 =
             Inr (Some (x0 + a * (x1 - x0) / d + h * (y1 - y0) / d,
                        y0 + a * (y1 - y0) / d - h * (x1 - x0) / d,
                        x0 + a * (x1 - x0) / d - h * (y1 - y0) / d,
                        y0 + a * (y1 - y0) / d + h * (x1 - x0) / d))"
proof -
  from assms(4-6) have "\<not> (d > r0 + r1 \<or> d < \<bar>r0 - r1\<bar> \<or> (d = 0 \<and> r0 = r1))"
    by linarith
  from circle_intersections_accepted [OF assms(1-3) this] show ?thesis
    by simp
qed

theorem circle_intersections_success_defined_witness:
  "circle_intersections 0 0 3 5 0 4 = Inr (Some (9 / 5, - (12 / 5), 9 / 5, 12 / 5))"
  using circle_intersections_success_defined
    [of 5 5 0 0 0 "9 / 5" 3 4 "12 / 5"]
  by (simp add: sqrt_25 power2_eq_square sqrt_144_25)

end
